theory Spec2Isabelle
  imports Main "HOL-Library.Multiset"
begin

section \<open>Private set-membership test: the model\<close>

text \<open>
  A shallow embedding of \<^verbatim>\<open>private_set_membership.py\<close>. The Client and the Server
  are records, every \<^verbatim>\<open>raise\<close> is a value \<open>Inl e\<close> of the result type, the loops
  are folds over the ranges the source iterates, and every random choice of a run is an
  explicit argument.
\<close>

subsection \<open>Errors\<close>

text \<open>
  All three \<^verbatim>\<open>raise\<close> statements of the module raise \<^verbatim>\<open>ValueError\<close>; the
  constructors tell the raise sites apart. \<open>KeysNotInitialized\<close> is raised by
  \<^verbatim>\<open>encrypt_query\<close> and \<^verbatim>\<open>decrypt_result\<close>, \<open>DegreeMismatch expected got\<close> by
  \<^verbatim>\<open>evaluate_polynomial_homomorphic\<close>. \<open>EmptyRange\<close> is the \<^verbatim>\<open>ValueError\<close> of
  \<^verbatim>\<open>random.randint(a, b)\<close> with \<open>b < a\<close>, and \<open>IndexError\<close> a list read out of range.
\<close>

datatype error = KeysNotInitialized | DegreeMismatch nat nat | EmptyRange | IndexError

definition py_nth :: "'a list \<Rightarrow> nat \<Rightarrow> error + 'a" where
  "py_nth xs i = (if i < length xs then Inr (xs ! i) else Inl IndexError)"

definition py_last :: "'a list \<Rightarrow> error + 'a" where
  "py_last xs = (if xs = [] then Inl IndexError else Inr (last xs))"

subsection \<open>The external collaborators\<close>

text \<open>
  The homomorphic scheme is the library \<^verbatim>\<open>phe.paillier\<close>; the module only calls it.
  It is a parameter of the model: a record of the five operations the module uses.
  Key generation and encryption are randomised in the library, so each takes the outcome
  of its random choice as an argument (a seed, a nonce).
  \<open>ciph_add\<close> is \<^verbatim>\<open>EncryptedNumber.__add__\<close> and \<open>ciph_mul\<close> is
  \<^verbatim>\<open>EncryptedNumber.__mul__\<close> by a plain integer.
\<close>

record ('pk, 'sk, 'ct) paillier =
  generate_paillier_keypair :: "nat \<Rightarrow> int \<Rightarrow> 'pk \<times> 'sk"
  encrypt :: "'pk \<Rightarrow> nat \<Rightarrow> int \<Rightarrow> 'ct"
  decrypt :: "'sk \<Rightarrow> 'ct \<Rightarrow> int"
  ciph_add :: "'ct \<Rightarrow> 'ct \<Rightarrow> 'ct"
  ciph_mul :: "'ct \<Rightarrow> int \<Rightarrow> 'ct"

text \<open>
  The contract of the scheme for one key pair, as the specification gives it:
  decryption inverts encryption, and addition and scalar multiplication of ciphertexts
  decrypt to the sum and to the product (for every scalar, negative and zero included).
\<close>

definition scheme_contract :: "('pk, 'sk, 'ct) paillier \<Rightarrow> 'pk \<Rightarrow> 'sk \<Rightarrow> bool" where
  "scheme_contract sch pk sk \<longleftrightarrow>
     (\<forall>nonce m. decrypt sch sk (encrypt sch pk nonce m) = m) \<and>
     (\<forall>x y. decrypt sch sk (ciph_add sch x y) = decrypt sch sk x + decrypt sch sk y) \<and>
     (\<forall>x k. decrypt sch sk (ciph_mul sch x k) = decrypt sch sk x * k)"

text \<open>
  \<^verbatim>\<open>random.randint(a, b)\<close> returns an integer \<open>N\<close> with \<open>a \<le> N \<le> b\<close> and raises
  \<^verbatim>\<open>ValueError\<close> on an empty range. The argument \<open>draw\<close> is the outcome of the random
  choice; as it ranges over the naturals, the result ranges over all of \<open>[a, b]\<close>.
\<close>

definition randint :: "int \<Rightarrow> int \<Rightarrow> nat \<Rightarrow> error + int" where
  "randint a b draw = (if a \<le> b then Inr (a + int draw mod (b - a + 1)) else Inl EmptyRange)"

text \<open>
  \<^verbatim>\<open>list(set(dataset))\<close> enumerates the distinct elements of the dataset in an order
  that the language leaves to the implementation (it can depend on the insertion order).
  The enumeration is a parameter \<open>L\<close> of the model, and \<open>listing_contract L dataset\<close>
  says what Python guarantees of it on this dataset.
\<close>

type_synonym set_listing = "int list \<Rightarrow> int list"

definition listing_contract :: "set_listing \<Rightarrow> int list \<Rightarrow> bool" where
  "listing_contract L dataset \<longleftrightarrow> distinct (L dataset) \<and> set (L dataset) = set dataset"

subsection \<open>Client\<close>

record ('pk, 'sk) Client =
  public_key :: "'pk option"
  private_key :: "'sk option"

definition Client_init :: "('pk, 'sk) Client" where
  "Client_init = \<lparr>public_key = None, private_key = None\<rparr>"

definition generate_keys ::
  "('pk, 'sk, 'ct) paillier \<Rightarrow> nat \<Rightarrow> ('pk, 'sk) Client \<Rightarrow> int \<Rightarrow> ('pk, 'sk) Client \<times> 'pk" where
  "generate_keys sch seed client key_length =
     (case generate_paillier_keypair sch seed key_length of
        (pk, sk) \<Rightarrow> (client\<lparr>public_key := Some pk, private_key := Some sk\<rparr>, pk))"

text \<open>
  The loop of \<^verbatim>\<open>encrypt_query\<close> over \<^verbatim>\<open>range(1, n + 1)\<close>; its state is the pair
  \<open>(current_power, encrypted_powers)\<close>. The range is empty for \<open>n < 1\<close>.
\<close>

definition encrypt_step ::
  "('pk, 'sk, 'ct) paillier \<Rightarrow> 'pk \<Rightarrow> (int \<Rightarrow> nat) \<Rightarrow> int \<Rightarrow> int \<Rightarrow> int \<times> 'ct list \<Rightarrow> int \<times> 'ct list" where
  "encrypt_step sch pk nonce c k st =
     (case st of (current_power, encrypted_powers) \<Rightarrow>
        (let current_power = current_power * c
         in (current_power, encrypted_powers @ [encrypt sch pk (nonce k) current_power])))"

definition encrypt_query ::
  "('pk, 'sk, 'ct) paillier \<Rightarrow> (int \<Rightarrow> nat) \<Rightarrow> ('pk, 'sk) Client \<Rightarrow> int \<Rightarrow> int \<Rightarrow> error + 'ct list" where
  "encrypt_query sch nonce client c n =
     (case public_key client of
        None \<Rightarrow> Inl KeysNotInitialized
      | Some pk \<Rightarrow> Inr (snd (fold (encrypt_step sch pk nonce c) [1..n] (1, []))))"

definition decrypt_result ::
  "('pk, 'sk, 'ct) paillier \<Rightarrow> ('pk, 'sk) Client \<Rightarrow> 'ct \<Rightarrow> error + int" where
  "decrypt_result sch client encrypted_result =
     (case private_key client of
        None \<Rightarrow> Inl KeysNotInitialized
      | Some sk \<Rightarrow> Inr (decrypt sch sk encrypted_result))"

definition check_membership :: "int \<Rightarrow> bool" where
  "check_membership decrypted_result \<longleftrightarrow> decrypted_result = 0"

text \<open>
  The Client after a sequence of \<^verbatim>\<open>generate_keys\<close> calls (each with its seed and
  key length) on a freshly constructed object: the states a Client can reach.
\<close>

definition client_after :: "('pk, 'sk, 'ct) paillier \<Rightarrow> (nat \<times> int) list \<Rightarrow> ('pk, 'sk) Client" where
  "client_after sch calls =
     fold (\<lambda>call client. fst (generate_keys sch (fst call) client (snd call))) calls Client_init"

subsection \<open>Server\<close>

record Server =
  dataset :: "int list"
  server_n :: nat
  coefficients :: "int list"

text \<open>
  One pass of the outer loop of \<^verbatim>\<open>_compute_polynomial_coefficients\<close>: the product of
  the current polynomial with \<open>(x - s_i)\<close>, by the two index loops of the source over
  a fresh list of zeros.
\<close>

definition mul_root :: "int \<Rightarrow> int list \<Rightarrow> int list" where
  "mul_root s_i coeffs =
     (let new_coeffs = replicate (length coeffs + 1) 0;
          new_coeffs = fold (\<lambda>i nc. nc[i := coeffs ! i]) [0..<length coeffs] new_coeffs;
          new_coeffs = fold (\<lambda>i nc. nc[i + 1 := nc ! (i + 1) + coeffs ! i * (- s_i)])
                         [0..<length coeffs] new_coeffs
      in new_coeffs)"

text \<open>
  The method reads \<^verbatim>\<open>self.n\<close> and \<^verbatim>\<open>self.dataset\<close>; at its only call, in the
  constructor, \<^verbatim>\<open>self.n\<close> is the length of \<^verbatim>\<open>self.dataset\<close>, so \<^verbatim>\<open>self.n == 0\<close> is
  the case of the empty list and \<^verbatim>\<open>self.dataset[0]\<close> is the head otherwise.
\<close>

fun compute_polynomial_coefficients :: "int list \<Rightarrow> int list" where
  "compute_polynomial_coefficients [] = [1]"
| "compute_polynomial_coefficients (s1 # rest) = fold mul_root rest [1, - s1]"

definition Server_init :: "set_listing \<Rightarrow> int list \<Rightarrow> Server" where
  "Server_init L dataset_in =
     \<lparr>dataset = L dataset_in,
      server_n = length (L dataset_in),
      coefficients = compute_polynomial_coefficients (L dataset_in)\<rparr>"

text \<open>
  The body of the loop of \<^verbatim>\<open>evaluate_polynomial_homomorphic\<close> for one \<open>k\<close>; the
  accumulator is the running \<^verbatim>\<open>result\<close>, or the exception raised so far.
\<close>

definition add_term ::
  "('pk, 'sk, 'ct) paillier \<Rightarrow> Server \<Rightarrow> 'ct list \<Rightarrow> nat \<Rightarrow> error + 'ct \<Rightarrow> error + 'ct" where
  "add_term sch server encrypted_powers k acc =
     (case acc of
        Inl e \<Rightarrow> Inl e
      | Inr result \<Rightarrow>
          (case py_nth (coefficients server) (server_n server - k) of
             Inl e \<Rightarrow> Inl e
           | Inr a_k \<Rightarrow>
               if a_k \<noteq> 0 then
                 (case py_nth encrypted_powers (k - 1) of
                    Inl e \<Rightarrow> Inl e
                  | Inr ep \<Rightarrow> Inr (ciph_add sch result (ciph_mul sch ep a_k)))
               else Inr result))"

definition evaluate_polynomial_homomorphic ::
  "('pk, 'sk, 'ct) paillier \<Rightarrow> nat \<Rightarrow> Server \<Rightarrow> 'pk \<Rightarrow> 'ct list \<Rightarrow> error + 'ct" where
  "evaluate_polynomial_homomorphic sch nonce server pk encrypted_powers =
     (if length encrypted_powers \<noteq> server_n server
      then Inl (DegreeMismatch (server_n server) (length encrypted_powers))
      else
        (case py_last (coefficients server) of
           Inl e \<Rightarrow> Inl e
         | Inr a_0 \<Rightarrow>
             fold (add_term sch server encrypted_powers) [1..<server_n server + 1]
               (Inr (encrypt sch pk nonce a_0))))"

text \<open>
  The homomorphic sum in the specification's words, with no term skipped:
  \<open>Enc(a\<^sub>0)\<close> plus, for \<open>k = 1, \<dots>, n\<close>, the \<open>k\<close>-th encrypted power multiplied by
  \<open>a\<^sub>k\<close>. It is compared with the source's loop below.
\<close>

definition add_term_unskipped ::
  "('pk, 'sk, 'ct) paillier \<Rightarrow> Server \<Rightarrow> 'ct list \<Rightarrow> nat \<Rightarrow> error + 'ct \<Rightarrow> error + 'ct" where
  "add_term_unskipped sch server encrypted_powers k acc =
     (case acc of
        Inl e \<Rightarrow> Inl e
      | Inr result \<Rightarrow>
          (case py_nth (coefficients server) (server_n server - k) of
             Inl e \<Rightarrow> Inl e
           | Inr a_k \<Rightarrow>
               (case py_nth encrypted_powers (k - 1) of
                  Inl e \<Rightarrow> Inl e
                | Inr ep \<Rightarrow> Inr (ciph_add sch result (ciph_mul sch ep a_k)))))"

definition homomorphic_sum_spec ::
  "('pk, 'sk, 'ct) paillier \<Rightarrow> nat \<Rightarrow> Server \<Rightarrow> 'pk \<Rightarrow> 'ct list \<Rightarrow> error + 'ct" where
  "homomorphic_sum_spec sch nonce server pk encrypted_powers =
     (case py_last (coefficients server) of
        Inl e \<Rightarrow> Inl e
      | Inr a_0 \<Rightarrow>
          fold (add_term_unskipped sch server encrypted_powers) [1..<server_n server + 1]
            (Inr (encrypt sch pk nonce a_0)))"

definition blind_and_return ::
  "('pk, 'sk, 'ct) paillier \<Rightarrow> nat \<Rightarrow> 'ct \<Rightarrow> int \<Rightarrow> error + 'ct" where
  "blind_and_return sch draw encrypted_result max_blinding_factor =
     (case randint 1 max_blinding_factor draw of
        Inl e \<Rightarrow> Inl e
      | Inr r \<Rightarrow> Inr (ciph_mul sch encrypted_result r))"

text \<open>The call with the default \<^verbatim>\<open>max_blinding_factor=1000\<close>.\<close>

definition blind_and_return_default :: "('pk, 'sk, 'ct) paillier \<Rightarrow> nat \<Rightarrow> 'ct \<Rightarrow> error + 'ct" where
  "blind_and_return_default sch draw encrypted_result =
     blind_and_return sch draw encrypted_result 1000"

subsection \<open>The protocol run\<close>

text \<open>The dictionary \<^verbatim>\<open>protocol_info\<close>; the key \<^verbatim>\<open>'coefficients'\<close> is \<open>info_coefficients\<close>.\<close>

record protocol_info =
  query :: int
  dataset_size :: nat
  polynomial_degree :: nat
  info_coefficients :: "int list"
  decrypted_result :: int
  is_member :: bool
  actual_membership :: bool

text \<open>The random choices of one run, in the order the run makes them.\<close>

record draws =
  key_seed :: nat
  power_nonce :: "int \<Rightarrow> nat"
  constant_nonce :: nat
  blinding_draw :: nat

text \<open>
  The locals \<^verbatim>\<open>public_key\<close>, \<^verbatim>\<open>decrypted_result\<close>, \<^verbatim>\<open>is_member\<close> and
  \<^verbatim>\<open>protocol_info\<close> of the source are \<open>pk\<close>, \<open>decrypted\<close>, \<open>verdict\<close> and \<open>info\<close>
  here, since the record fields hold those names.
\<close>

definition run_protocol ::
  "('pk, 'sk, 'ct) paillier \<Rightarrow> set_listing \<Rightarrow> draws \<Rightarrow> int \<Rightarrow> int list \<Rightarrow> int
     \<Rightarrow> error + (bool \<times> protocol_info)" where
  "run_protocol sch L rnd client_query server_dataset key_length =
     (let client = Client_init;
          server = Server_init L server_dataset
      in case generate_keys sch (key_seed rnd) client key_length of
        (client, pk) \<Rightarrow>
      (case encrypt_query sch (power_nonce rnd) client client_query (int (server_n server)) of
         Inl e \<Rightarrow> Inl e
       | Inr encrypted_powers \<Rightarrow>
      (case evaluate_polynomial_homomorphic sch (constant_nonce rnd) server pk
              encrypted_powers of
         Inl e \<Rightarrow> Inl e
       | Inr encrypted_polynomial_value \<Rightarrow>
      (case blind_and_return_default sch (blinding_draw rnd) encrypted_polynomial_value of
         Inl e \<Rightarrow> Inl e
       | Inr blinded_result \<Rightarrow>
      (case decrypt_result sch client blinded_result of
         Inl e \<Rightarrow> Inl e
       | Inr decrypted \<Rightarrow>
          (let verdict = check_membership decrypted;
               info =
                 \<lparr>query = client_query,
                  dataset_size = length server_dataset,
                  polynomial_degree = server_n server,
                  info_coefficients = coefficients server,
                  decrypted_result = decrypted,
                  is_member = verdict,
                  actual_membership = (client_query \<in> set server_dataset)\<rparr>
           in Inr (verdict, info)))))))"

subsection \<open>Vocabulary of the properties\<close>

text \<open>
  The value at \<open>x\<close> of the polynomial with the coefficient list \<open>cs\<close>, highest degree
  first, in plain integer arithmetic: the sum of \<open>a\<^sub>k * x ^ k\<close>, where \<open>a\<^sub>k\<close> is the
  entry at index \<open>length cs - 1 - k\<close>.
\<close>

definition poly_value :: "int list \<Rightarrow> int \<Rightarrow> int" where
  "poly_value cs x = (\<Sum>i\<leftarrow>[0..<length cs]. cs ! i * x ^ (length cs - 1 - i))"

text \<open>The entry of a coefficient list at an index, and zero beyond its end.\<close>

definition coef :: "int list \<Rightarrow> nat \<Rightarrow> int" where
  "coef cs j = (if j < length cs then cs ! j else 0)"

text \<open>
  A stand-in scheme for concrete runs: a ciphertext is the plaintext paired with a
  tag that records the randomness that went into it; the keys are trivial.
\<close>

definition tagged_scheme :: "(unit, unit, int \<times> nat) paillier" where
  "tagged_scheme =
     \<lparr>generate_paillier_keypair = (\<lambda>seed n_length. ((), ())),
      encrypt = (\<lambda>pk nonce m. (m, nonce)),
      decrypt = (\<lambda>sk x. fst x),
      ciph_add = (\<lambda>x y. (fst x + fst y, snd x + snd y)),
      ciph_mul = (\<lambda>x k. (fst x * k, snd x))\<rparr>"

definition demo_draws :: draws where
  "demo_draws = \<lparr>key_seed = 7, power_nonce = (\<lambda>k. nat k + 11), constant_nonce = 3,
                 blinding_draw = 41\<rparr>"

section \<open>The polynomial encoder\<close>

subsection \<open>The two index loops\<close>

lemma copy_loop_length [simp]:
  "length (fold (\<lambda>i nc. nc[i := f i]) [0..<m] nc) = length nc"
  by (induction m) simp_all

lemma copy_loop_nth:
  "j < length nc \<Longrightarrow>
   fold (\<lambda>i nc. nc[i := f i]) [0..<m] nc ! j = (if j < m then f j else nc ! j)"
  by (induction m) (auto simp: nth_list_update less_Suc_eq)

lemma scale_loop_length_Suc [simp]:
  "length (fold (\<lambda>i nc. nc[Suc i := nc ! Suc i + g i]) [0..<m] nc) = length nc"
  by (induction m) simp_all

lemma scale_loop_nth_Suc:
  "j < length nc \<Longrightarrow>
   fold (\<lambda>i nc. nc[Suc i := nc ! Suc i + g i]) [0..<m] nc ! j
     = (if 0 < j \<and> j \<le> m then nc ! j + g (j - 1) else nc ! j)"
  by (induction m) (auto simp: nth_list_update le_Suc_eq)

lemma scale_loop_length:
  "length (fold (\<lambda>i nc. nc[i + 1 := nc ! (i + 1) + g i]) [0..<m] nc) = length nc"
  using scale_loop_length_Suc [of g m nc] by simp

lemma scale_loop_nth:
  "j < length nc \<Longrightarrow>
   fold (\<lambda>i nc. nc[i + 1 := nc ! (i + 1) + g i]) [0..<m] nc ! j
     = (if 0 < j \<and> j \<le> m then nc ! j + g (j - 1) else nc ! j)"
  using scale_loop_nth_Suc [of j nc g m] by simp

lemma length_mul_root [simp]: "length (mul_root s cs) = length cs + 1"
  unfolding mul_root_def Let_def
  by (simp only: scale_loop_length copy_loop_length length_replicate)

lemma coef_eqI: "length xs = length ys \<Longrightarrow> (\<And>j. coef xs j = coef ys j) \<Longrightarrow> xs = ys"
proof (rule nth_equalityI)
  fix i
  assume i: "i < length xs" and len: "length xs = length ys"
    and eq: "\<And>j. coef xs j = coef ys j"
  from eq [of i] i len show "xs ! i = ys ! i" by (simp add: coef_def)
qed

lemma mul_root_nth:
  assumes "j \<le> length cs"
  shows "mul_root s cs ! j = coef cs j + (if 0 < j then coef cs (j - 1) * (- s) else 0)"
proof -
  define z :: "int list" where "z = replicate (length cs + 1) 0"
  define a where "a = fold (\<lambda>i nc. nc[i := cs ! i]) [0..<length cs] z"
  have lz: "length z = length cs + 1" by (simp add: z_def)
  have zj: "z ! j = 0" unfolding z_def by (rule nth_replicate) (use assms in simp)
  have "a ! j = (if j < length cs then cs ! j else z ! j)"
    unfolding a_def by (rule copy_loop_nth) (use assms lz in simp)
  then have aj: "a ! j = coef cs j"
    by (simp add: zj coef_def)
  have "j < length a" using assms lz by (simp add: a_def)
  then have "mul_root s cs ! j
      = (if 0 < j \<and> j \<le> length cs then a ! j + cs ! (j - 1) * (- s) else a ! j)"
    unfolding mul_root_def Let_def a_def z_def
    by (rule scale_loop_nth [where g = "\<lambda>i. cs ! i * (- s)"])
  then show ?thesis using assms aj by (auto simp: coef_def)
qed

lemma coef_mul_root:
  "coef (mul_root s cs) j = coef cs j + (if 0 < j then coef cs (j - 1) * (- s) else 0)"
proof (cases "j \<le> length cs")
  case True
  then show ?thesis
    using mul_root_nth [OF True, of s] by (simp add: coef_def [of "mul_root s cs"])
next
  case False
  then have "\<not> j < length cs + 1" "\<not> j < length cs" "\<not> j - 1 < length cs" by arith+
  then show ?thesis by (simp add: coef_def)
qed

subsection \<open>The encoder as an iterated product\<close>

lemma mul_root_commute: "mul_root s (mul_root t cs) = mul_root t (mul_root s cs)"
  by (rule coef_eqI) (simp_all add: coef_mul_root algebra_simps)

lemma mul_root_single: "mul_root s [1] = [1, - s]"
  by (rule nth_equalityI) (auto simp: mul_root_nth coef_def less_Suc_eq)

lemma compute_fold: "compute_polynomial_coefficients ds = fold mul_root ds [1]"
  by (cases ds) (simp_all add: mul_root_single)

lemma compute_mset:
  "mset us = mset vs \<Longrightarrow>
   compute_polynomial_coefficients us = compute_polynomial_coefficients vs"
  unfolding compute_fold
  by (rule arg_cong [where f = "\<lambda>f. f [1]"], rule fold_multiset_equiv)
     (auto simp: mul_root_commute fun_eq_iff)

lemma length_fold_mul_root: "length (fold mul_root ds cs) = length cs + length ds"
  by (induction ds arbitrary: cs) simp_all

lemma length_compute: "length (compute_polynomial_coefficients ds) = length ds + 1"
  by (simp add: compute_fold length_fold_mul_root)

lemma leading_fold_mul_root: "cs \<noteq> [] \<Longrightarrow> fold mul_root ds cs ! 0 = cs ! 0"
proof (induction ds arbitrary: cs)
  case Nil
  then show ?case by simp
next
  case (Cons d ds)
  have "mul_root d cs \<noteq> []"
    by (metis length_mul_root add_is_0 length_0_conv zero_neq_one)
  moreover have "mul_root d cs ! 0 = cs ! 0"
    using Cons.prems by (simp add: mul_root_nth coef_def)
  ultimately show ?case using Cons.IH [of "mul_root d cs"] by simp
qed

lemma leading_compute: "compute_polynomial_coefficients ds ! 0 = 1"
  by (simp add: compute_fold leading_fold_mul_root)

subsection \<open>The value of the encoded polynomial\<close>

lemma poly_value_sum:
  "poly_value cs x = (\<Sum>i<length cs. coef cs i * x ^ (length cs - 1 - i))"
proof -
  have "poly_value cs x = (\<Sum>i<length cs. cs ! i * x ^ (length cs - 1 - i))"
    unfolding poly_value_def
    by (simp add: interv_sum_list_conv_sum_set_nat atLeast0LessThan)
  also have "\<dots> = (\<Sum>i<length cs. coef cs i * x ^ (length cs - 1 - i))"
    by (rule sum.cong) (simp_all add: coef_def)
  finally show ?thesis .
qed

lemma poly_value_mul_root: "poly_value (mul_root s cs) x = (x - s) * poly_value cs x"
proof -
  let ?n = "length cs"
  have "poly_value (mul_root s cs) x
      = (\<Sum>i<Suc ?n. (coef cs i + (if 0 < i then coef cs (i - 1) * (- s) else 0)) * x ^ (?n - i))"
    by (simp add: poly_value_sum coef_mul_root)
  also have "\<dots> = (\<Sum>i<Suc ?n. coef cs i * x ^ (?n - i))
                 + (\<Sum>i<Suc ?n. (if 0 < i then coef cs (i - 1) * (- s) else 0) * x ^ (?n - i))"
    by (simp add: distrib_right sum.distrib)
  also have "(\<Sum>i<Suc ?n. coef cs i * x ^ (?n - i)) = (\<Sum>i<?n. coef cs i * x ^ (?n - i))"
    by (simp add: coef_def)
  also have "\<dots> = (\<Sum>i<?n. x * (coef cs i * x ^ (?n - 1 - i)))"
  proof (rule sum.cong)
    fix i
    assume "i \<in> {..<?n}"
    then have "?n - i = Suc (?n - 1 - i)" by auto
    then show "coef cs i * x ^ (?n - i) = x * (coef cs i * x ^ (?n - 1 - i))" by simp
  qed simp
  also have "\<dots> = x * poly_value cs x"
    by (simp add: poly_value_sum sum_distrib_left)
  also have "(\<Sum>i<Suc ?n. (if 0 < i then coef cs (i - 1) * (- s) else 0) * x ^ (?n - i))
      = (\<Sum>i<?n. (- s) * (coef cs i * x ^ (?n - 1 - i)))"
    by (subst sum.lessThan_Suc_shift) (simp add: mult_ac)
  also have "\<dots> = (- s) * poly_value cs x"
    by (simp only: poly_value_sum sum_distrib_left)
  finally show ?thesis by (simp add: algebra_simps)
qed

lemma poly_value_fold:
  "poly_value (fold mul_root ds cs) x = (\<Prod>s\<leftarrow>ds. x - s) * poly_value cs x"
  by (induction ds arbitrary: cs) (simp_all add: poly_value_mul_root mult_ac)

lemma poly_value_compute:
  "poly_value (compute_polynomial_coefficients ds) x = (\<Prod>s\<leftarrow>ds. x - s)"
proof -
  have "poly_value [1] x = 1" by (simp add: poly_value_def)
  then show ?thesis unfolding compute_fold poly_value_fold by simp
qed

lemma root_product_zero_iff: "(\<Prod>s\<leftarrow>ds. x - s) = 0 \<longleftrightarrow> (x::int) \<in> set ds"
  by (induction ds) auto

lemma poly_value_compute_zero_iff:
  "poly_value (compute_polynomial_coefficients ds) x = 0 \<longleftrightarrow> x \<in> set ds"
  by (simp add: poly_value_compute root_product_zero_iff)

lemma listing_card: "listing_contract L ds \<Longrightarrow> length (L ds) = card (set ds)"
  unfolding listing_contract_def by (metis distinct_card)

lemma listing_remdups: "listing_contract remdups ds"
  by (simp add: listing_contract_def)

lemma listing_rev_remdups: "listing_contract (\<lambda>xs. rev (remdups xs)) ds"
  by (simp add: listing_contract_def)

section \<open>Properties of the encoder\<close>

text \<open>
  C2 (polynomial root property). For every dataset and every element \<open>s\<close> of it,
  the coefficient list the Server computes at construction, evaluated at \<open>x = s\<close> in plain
  integer arithmetic, is exactly 0. Every finite set of integers is the set of such a list.
\<close>

theorem C2_root_property:
  assumes "listing_contract L ds" and "s \<in> set ds"
  shows "poly_value (coefficients (Server_init L ds)) s = 0"
  using assms by (simp add: Server_init_def poly_value_compute_zero_iff listing_contract_def)

theorem C2_root_property_witness:
  "listing_contract remdups [1, 3, 5, 7, 9, 5] \<and> (5::int) \<in> set [1, 3, 5, 7, 9, 5]
   \<and> poly_value (coefficients (Server_init remdups [1, 3, 5, 7, 9, 5])) 5 = 0"
proof -
  have h1: "listing_contract remdups [1, 3, 5, 7, 9, 5]" by (rule listing_remdups)
  have h2: "(5::int) \<in> set [1, 3, 5, 7, 9, 5]" by simp
  from h1 h2 C2_root_property [OF h1 h2] show ?thesis by blast
qed

text \<open>
  C3 (non-root property). For every non-empty dataset and every integer \<open>s'\<close> that is
  not in it, the coefficient list the Server computes, evaluated at \<open>x = s'\<close>, is a
  non-zero integer.
\<close>

theorem C3_non_root_property:
  assumes "listing_contract L ds" and "set ds \<noteq> {}" and "s' \<notin> set ds"
  shows "poly_value (coefficients (Server_init L ds)) s' \<noteq> 0"
  using assms by (simp add: Server_init_def poly_value_compute_zero_iff listing_contract_def)

theorem C3_non_root_property_witness:
  "listing_contract remdups [1, 3, 5, 7, 9] \<and> set [1, 3, 5, 7, 9 :: int] \<noteq> {}
   \<and> (4::int) \<notin> set [1, 3, 5, 7, 9]
   \<and> poly_value (coefficients (Server_init remdups [1, 3, 5, 7, 9])) 4 \<noteq> 0"
proof -
  have h1: "listing_contract remdups [1, 3, 5, 7, 9]" by (rule listing_remdups)
  have h2: "set [1, 3, 5, 7, 9 :: int] \<noteq> {}" by simp
  have h3: "(4::int) \<notin> set [1, 3, 5, 7, 9]" by simp
  from h1 h2 h3 C3_non_root_property [OF h1 h2 h3] show ?thesis by blast
qed

text \<open>
  C6 (degree invariant). For every input dataset, the Server after construction has
  \<open>n\<close> equal to the number of distinct elements of the dataset, a coefficient list of
  length exactly \<open>n + 1\<close>, and the leading (first) coefficient 1. No operation of the
  Server returns a changed Server, so the constructed record is the only reachable state.
\<close>

theorem C6_degree_invariant:
  assumes "listing_contract L ds"
  shows "server_n (Server_init L ds) = card (set ds)
       \<and> length (coefficients (Server_init L ds)) = server_n (Server_init L ds) + 1
       \<and> coefficients (Server_init L ds) ! 0 = 1"
  using assms by (simp add: Server_init_def length_compute leading_compute listing_card)

theorem C6_degree_invariant_witness:
  "listing_contract remdups [4, 2, 4, 4, 8]
   \<and> server_n (Server_init remdups [4, 2, 4, 4, 8]) = card (set [4, 2, 4, 4, 8 :: int])
   \<and> length (coefficients (Server_init remdups [4, 2, 4, 4, 8]))
       = server_n (Server_init remdups [4, 2, 4, 4, 8]) + 1
   \<and> coefficients (Server_init remdups [4, 2, 4, 4, 8]) ! 0 = 1"
proof -
  have h1: "listing_contract remdups [4, 2, 4, 4, 8]" by (rule listing_remdups)
  from h1 C6_degree_invariant [OF h1] show ?thesis by blast
qed

text \<open>
  C9 (the encoding depends only on the set). For every two input datasets with the same
  set of elements, whatever the order and the multiplicities, and whatever order the
  enumeration of the distinct elements takes in each construction, the two Servers have
  the same degree \<open>n\<close> and equal coefficient lists.
\<close>

theorem C9_encoding_of_set:
  assumes "listing_contract L xs" and "listing_contract L' ys" and "set xs = set ys"
  shows "server_n (Server_init L xs) = server_n (Server_init L' ys)
       \<and> coefficients (Server_init L xs) = coefficients (Server_init L' ys)"
proof -
  have "mset (L xs) = mset (L' ys)"
    using assms unfolding listing_contract_def
    by (metis set_eq_iff_mset_eq_distinct)
  then have "length (L xs) = length (L' ys)"
    and "compute_polynomial_coefficients (L xs) = compute_polynomial_coefficients (L' ys)"
    by (rule mset_eq_length, rule compute_mset)
  then show ?thesis
    by (simp add: Server_init_def)
qed

theorem C9_encoding_of_set_witness:
  "listing_contract remdups [3, 1, 3, 2] \<and> listing_contract (\<lambda>xs. rev (remdups xs)) [2, 1, 1, 3]
   \<and> set [3, 1, 3, 2 :: int] = set [2, 1, 1, 3]
   \<and> server_n (Server_init remdups [3, 1, 3, 2])
       = server_n (Server_init (\<lambda>xs. rev (remdups xs)) [2, 1, 1, 3])
   \<and> coefficients (Server_init remdups [3, 1, 3, 2])
       = coefficients (Server_init (\<lambda>xs. rev (remdups xs)) [2, 1, 1, 3])"
proof -
  have h1: "listing_contract remdups [3, 1, 3, 2]" by (rule listing_remdups)
  have h2: "listing_contract (\<lambda>xs. rev (remdups xs)) [2, 1, 1, 3]"
    by (rule listing_rev_remdups)
  have h3: "set [3, 1, 3, 2 :: int] = set [2, 1, 1, 3]" by auto
  from h1 h2 h3 C9_encoding_of_set [OF h1 h2 h3] show ?thesis by blast
qed

section \<open>Error conditions\<close>

subsection \<open>Key state of the Client\<close>

lemma generate_keys_public:
  "public_key (fst (generate_keys sch seed client kl))
     = Some (fst (generate_paillier_keypair sch seed kl))"
  by (simp add: generate_keys_def split: prod.splits)

lemma generate_keys_private:
  "private_key (fst (generate_keys sch seed client kl))
     = Some (snd (generate_paillier_keypair sch seed kl))"
  by (simp add: generate_keys_def split: prod.splits)

lemma generate_keys_returns:
  "snd (generate_keys sch seed client kl) = fst (generate_paillier_keypair sch seed kl)"
  by (simp add: generate_keys_def split: prod.splits)

lemma client_after_Nil: "client_after sch [] = Client_init"
  by (simp add: client_after_def)

lemma client_after_snoc:
  "client_after sch (calls @ [call])
     = fst (generate_keys sch (fst call) (client_after sch calls) (snd call))"
  by (simp add: client_after_def)

lemma client_after_keys:
  "(public_key (client_after sch calls) = None \<longleftrightarrow> calls = [])
   \<and> (private_key (client_after sch calls) = None \<longleftrightarrow> calls = [])"
proof (cases calls rule: rev_cases)
  case Nil
  then show ?thesis by (simp add: client_after_Nil Client_init_def)
next
  case (snoc calls' call)
  then show ?thesis
    by (simp add: client_after_snoc generate_keys_public generate_keys_private)
qed

lemma encrypt_query_fails_iff:
  "encrypt_query sch nonce client c n = Inl KeysNotInitialized \<longleftrightarrow> public_key client = None"
  by (simp add: encrypt_query_def split: option.splits)

lemma decrypt_result_fails_iff:
  "decrypt_result sch client ct = Inl KeysNotInitialized \<longleftrightarrow> private_key client = None"
  by (simp add: decrypt_result_def split: option.splits)

text \<open>
  C8 (keys not initialised). On a freshly constructed Client \<^verbatim>\<open>encrypt_query\<close> and
  \<^verbatim>\<open>decrypt_result\<close> fail with \<open>KeysNotInitialized\<close>. On the Client reached by any
  sequence of \<^verbatim>\<open>generate_keys\<close> calls, each of the two fails with that error exactly
  when the sequence is empty, and after one more \<^verbatim>\<open>generate_keys\<close> call both return.
\<close>

theorem C8_keys_not_initialized:
  "encrypt_query sch nonce Client_init c n = Inl KeysNotInitialized
   \<and> decrypt_result sch Client_init ct = Inl KeysNotInitialized
   \<and> (encrypt_query sch nonce (client_after sch calls) c n = Inl KeysNotInitialized
        \<longleftrightarrow> calls = [])
   \<and> (decrypt_result sch (client_after sch calls) ct = Inl KeysNotInitialized
        \<longleftrightarrow> calls = [])
   \<and> (\<exists>eps. encrypt_query sch nonce
               (fst (generate_keys sch seed (client_after sch calls) kl)) c n = Inr eps)
   \<and> (\<exists>v. decrypt_result sch
               (fst (generate_keys sch seed (client_after sch calls) kl)) ct = Inr v)"
proof -
  have "encrypt_query sch nonce Client_init c n = Inl KeysNotInitialized"
    by (simp add: encrypt_query_def Client_init_def)
  moreover have "decrypt_result sch Client_init ct = Inl KeysNotInitialized"
    by (simp add: decrypt_result_def Client_init_def)
  moreover have "encrypt_query sch nonce (client_after sch calls) c n = Inl KeysNotInitialized
        \<longleftrightarrow> calls = []"
    by (simp add: encrypt_query_fails_iff client_after_keys)
  moreover have "decrypt_result sch (client_after sch calls) ct = Inl KeysNotInitialized
        \<longleftrightarrow> calls = []"
    by (simp add: decrypt_result_fails_iff client_after_keys)
  moreover have "\<exists>eps. encrypt_query sch nonce
               (fst (generate_keys sch seed (client_after sch calls) kl)) c n = Inr eps"
    by (simp add: encrypt_query_def generate_keys_public)
  moreover have "\<exists>v. decrypt_result sch
               (fst (generate_keys sch seed (client_after sch calls) kl)) ct = Inr v"
    by (simp add: decrypt_result_def generate_keys_private)
  ultimately show ?thesis by blast
qed

theorem C8_keys_not_initialized_witness:
  "encrypt_query tagged_scheme (\<lambda>k. 0) (client_after tagged_scheme []) 5 2
     = Inl KeysNotInitialized
   \<and> encrypt_query tagged_scheme (\<lambda>k. 0) (client_after tagged_scheme [(7, 1024)]) 5 2
     \<noteq> Inl KeysNotInitialized
   \<and> decrypt_result tagged_scheme (client_after tagged_scheme []) (6, 0)
     = Inl KeysNotInitialized
   \<and> decrypt_result tagged_scheme (client_after tagged_scheme [(7, 1024)]) (6, 0)
     \<noteq> Inl KeysNotInitialized"
  using C8_keys_not_initialized [of tagged_scheme "\<lambda>k. 0" 5 2 "(6, 0)" "[]"]
    C8_keys_not_initialized [of tagged_scheme "\<lambda>k. 0" 5 2 "(6, 0)" "[(7, 1024)]"]
  by simp

subsection \<open>Length check of the Server\<close>

lemma add_term_Inl: "add_term sch server eps k (Inl e) = Inl e"
  by (simp add: add_term_def)

lemma fold_add_term_Inl: "fold (add_term sch server eps) ks (Inl e) = Inl e"
  by (induction ks) (simp_all add: add_term_Inl)

lemma add_term_no_mismatch:
  "add_term sch server eps k (Inr r) \<noteq> Inl (DegreeMismatch a b)"
  by (simp add: add_term_def py_nth_def split: sum.splits)

lemma fold_add_term_no_mismatch:
  "fold (add_term sch server eps) ks (Inr r) \<noteq> Inl (DegreeMismatch a b)"
proof (induction ks arbitrary: r)
  case Nil
  then show ?case by simp
next
  case (Cons k ks)
  show ?case
  proof (cases "add_term sch server eps k (Inr r)")
    case (Inl e)
    then have "e \<noteq> DegreeMismatch a b" using add_term_no_mismatch [of sch server eps k r a b] by auto
    then show ?thesis using Inl by (simp add: fold_add_term_Inl)
  next
    case (Inr r')
    then show ?thesis using Cons.IH [of r'] by simp
  qed
qed

text \<open>
  C7 (degree mismatch). For every Server record and every list of encrypted powers,
  \<^verbatim>\<open>evaluate_polynomial_homomorphic\<close> fails with \<open>DegreeMismatch\<close> if and only if the
  length of the list differs from the Server's \<open>n\<close>; the failure carries \<open>n\<close> and the
  length received, and a call that returns a ciphertext had a list of length \<open>n\<close>, so
  a list of another length is neither truncated nor padded.
\<close>

theorem C7_degree_mismatch:
  "((\<exists>a b. evaluate_polynomial_homomorphic sch nonce server pk eps = Inl (DegreeMismatch a b))
      \<longleftrightarrow> length eps \<noteq> server_n server)
   \<and> (evaluate_polynomial_homomorphic sch nonce server pk eps
        = Inl (DegreeMismatch (server_n server) (length eps))
      \<longleftrightarrow> length eps \<noteq> server_n server)
   \<and> ((\<exists>x. evaluate_polynomial_homomorphic sch nonce server pk eps = Inr x)
        \<longrightarrow> length eps = server_n server)"
proof (cases "length eps = server_n server")
  case True
  have "evaluate_polynomial_homomorphic sch nonce server pk eps \<noteq> Inl (DegreeMismatch a b)" for a b
    using True fold_add_term_no_mismatch [of sch server eps _ _ a b]
    by (simp add: evaluate_polynomial_homomorphic_def py_last_def)
  then show ?thesis using True by simp
next
  case False
  then show ?thesis by (simp add: evaluate_polynomial_homomorphic_def)
qed

theorem C7_degree_mismatch_witness:
  "evaluate_polynomial_homomorphic tagged_scheme 3 (Server_init remdups [1, 3]) () [(2, 0)]
     = Inl (DegreeMismatch 2 1)"
proof -
  have "length [(2::int, 0::nat)] \<noteq> server_n (Server_init remdups [1, 3])"
    by (simp add: Server_init_def)
  with C7_degree_mismatch [of tagged_scheme 3 "Server_init remdups [1, 3]" "()" "[(2, 0)]"]
  show ?thesis by (simp add: Server_init_def)
qed

section \<open>Homomorphic evaluation and blinding\<close>

subsection \<open>Blinding\<close>

lemma tagged_contract: "scheme_contract tagged_scheme () ()"
  by (simp add: scheme_contract_def tagged_scheme_def)

lemma randint_range:
  "a \<le> b \<Longrightarrow> \<exists>r. randint a b draw = Inr r \<and> a \<le> r \<and> r \<le> b"
proof -
  assume ab: "a \<le> b"
  then have pos: "0 < b - a + 1" by simp
  have "0 \<le> int draw mod (b - a + 1)" "int draw mod (b - a + 1) < b - a + 1"
    using pos by (rule pos_mod_sign, rule pos_mod_bound)
  then show ?thesis using ab by (simp add: randint_def)
qed

lemma contract_mul:
  "scheme_contract sch pk sk \<Longrightarrow> decrypt sch sk (ciph_mul sch x k) = decrypt sch sk x * k"
  by (simp add: scheme_contract_def)

lemma contract_add:
  "scheme_contract sch pk sk \<Longrightarrow>
   decrypt sch sk (ciph_add sch x y) = decrypt sch sk x + decrypt sch sk y"
  by (simp add: scheme_contract_def)

lemma contract_encrypt:
  "scheme_contract sch pk sk \<Longrightarrow> decrypt sch sk (encrypt sch pk nonce m) = m"
  by (simp add: scheme_contract_def)

lemma blind_and_return_value:
  assumes "scheme_contract sch pk sk" and "1 \<le> m"
  shows "\<exists>r x. blind_and_return sch draw ct m = Inr x \<and> 1 \<le> r \<and> r \<le> m
           \<and> decrypt sch sk x = r * decrypt sch sk ct"
proof -
  from randint_range [OF assms(2), of draw]
  obtain r where r: "randint 1 m draw = Inr r" "1 \<le> r" "r \<le> m" by blast
  have "blind_and_return sch draw ct m = Inr (ciph_mul sch ct r)"
    by (simp add: blind_and_return_def r(1))
  moreover have "decrypt sch sk (ciph_mul sch ct r) = r * decrypt sch sk ct"
    by (simp add: contract_mul [OF assms(1)] mult.commute)
  ultimately show ?thesis using r by blast
qed

text \<open>
  C5 (blinding). For every ciphertext and every \<open>max_blinding_factor\<close> \<open>m \<ge> 1\<close>,
  whatever the random draw, \<^verbatim>\<open>blind_and_return\<close> returns a ciphertext that decrypts to
  \<open>r\<close> times the decryption \<open>v\<close> of the argument, for an integer \<open>r\<close> with
  \<open>1 \<le> r \<le> m\<close> (\<open>m = 1000\<close> by default); so the blinded decryption is 0 exactly
  when \<open>v\<close> is 0.
\<close>

theorem C5_blinding:
  assumes "scheme_contract sch pk sk" and "1 \<le> m"
  shows "(\<exists>r x. blind_and_return sch draw ct m = Inr x \<and> 1 \<le> r \<and> r \<le> m
           \<and> decrypt sch sk x = r * decrypt sch sk ct
           \<and> (decrypt sch sk x = 0 \<longleftrightarrow> decrypt sch sk ct = 0))
       \<and> (\<exists>r x. blind_and_return_default sch draw ct = Inr x \<and> 1 \<le> r \<and> r \<le> 1000
           \<and> decrypt sch sk x = r * decrypt sch sk ct
           \<and> (decrypt sch sk x = 0 \<longleftrightarrow> decrypt sch sk ct = 0))"
proof
  show "\<exists>r x. blind_and_return sch draw ct m = Inr x \<and> 1 \<le> r \<and> r \<le> m
           \<and> decrypt sch sk x = r * decrypt sch sk ct
           \<and> (decrypt sch sk x = 0 \<longleftrightarrow> decrypt sch sk ct = 0)"
    using blind_and_return_value [OF assms, of draw ct] by fastforce
  show "\<exists>r x. blind_and_return_default sch draw ct = Inr x \<and> 1 \<le> r \<and> r \<le> 1000
           \<and> decrypt sch sk x = r * decrypt sch sk ct
           \<and> (decrypt sch sk x = 0 \<longleftrightarrow> decrypt sch sk ct = 0)"
    unfolding blind_and_return_default_def
    using blind_and_return_value [OF assms(1), of 1000 draw ct] by fastforce
qed

theorem C5_blinding_witness:
  "scheme_contract tagged_scheme () () \<and> (1::int) \<le> 50
   \<and> blind_and_return tagged_scheme 141 (6, 9) 50 = Inr (252, 9)
   \<and> (\<exists>r x. blind_and_return tagged_scheme 141 (6, 9) 50 = Inr x \<and> 1 \<le> r \<and> r \<le> 50
           \<and> decrypt tagged_scheme () x = r * decrypt tagged_scheme () (6, 9)
           \<and> (decrypt tagged_scheme () x = 0 \<longleftrightarrow> decrypt tagged_scheme () (6, 9) = 0))"
proof -
  have h1: "scheme_contract tagged_scheme () ()" by (rule tagged_contract)
  have h2: "(1::int) \<le> 50" by simp
  have "blind_and_return tagged_scheme 141 (6, 9) 50 = Inr (252, 9)"
    by (simp add: blind_and_return_def randint_def tagged_scheme_def)
  with h1 h2 C5_blinding [OF h1 h2, of 141 "(6, 9)"] show ?thesis by blast
qed

subsection \<open>Homomorphic evaluation\<close>

lemma poly_value_low_first:
  assumes "length cs = n + 1"
  shows "poly_value cs x = cs ! n + (\<Sum>k<n. cs ! (n - Suc k) * x ^ Suc k)"
proof -
  define h where "h k = cs ! (n - k) * x ^ k" for k
  have "poly_value cs x = (\<Sum>i<Suc n. cs ! i * x ^ (n - i))"
    unfolding poly_value_def using assms
    by (simp add: interv_sum_list_conv_sum_set_nat atLeast0LessThan)
  also have "\<dots> = (\<Sum>i<Suc n. h (Suc n - Suc i))"
    by (rule sum.cong) (auto simp: h_def)
  also have "\<dots> = (\<Sum>k<Suc n. h k)"
    by (rule sum.nat_diff_reindex)
  also have "\<dots> = h 0 + (\<Sum>k<n. h (Suc k))"
    by (rule sum.lessThan_Suc_shift)
  finally show ?thesis by (simp add: h_def)
qed

lemma add_term_step:
  assumes "scheme_contract sch pk sk"
    and "length (coefficients srv) = server_n srv + 1"
    and "length eps = server_n srv"
    and "decrypt sch sk (eps ! k) = c ^ Suc k"
    and "k < server_n srv"
  shows "\<exists>y. add_term sch srv eps (Suc k) (Inr x) = Inr y
           \<and> decrypt sch sk y
               = decrypt sch sk x + coefficients srv ! (server_n srv - Suc k) * c ^ Suc k"
proof -
  have "server_n srv - Suc k < length (coefficients srv)" using assms(2) by arith
  then show ?thesis
    using assms
    by (simp add: add_term_def py_nth_def contract_add [OF assms(1)] contract_mul [OF assms(1)]
        mult.commute)
qed

lemma add_term_unskipped_step:
  assumes "scheme_contract sch pk sk"
    and "length (coefficients srv) = server_n srv + 1"
    and "length eps = server_n srv"
    and "decrypt sch sk (eps ! k) = c ^ Suc k"
    and "k < server_n srv"
  shows "\<exists>y. add_term_unskipped sch srv eps (Suc k) (Inr x) = Inr y
           \<and> decrypt sch sk y
               = decrypt sch sk x + coefficients srv ! (server_n srv - Suc k) * c ^ Suc k"
proof -
  have "server_n srv - Suc k < length (coefficients srv)" using assms(2) by arith
  then show ?thesis
    using assms
    by (simp add: add_term_unskipped_def py_nth_def contract_add [OF assms(1)] contract_mul [OF assms(1)]
        mult.commute)
qed

lemma term_loop:
  assumes step: "\<And>k x. k < n \<Longrightarrow> \<exists>y. f (Suc k) (Inr x) = Inr y \<and> d y = d x + t k"
    and "m \<le> n"
  shows "\<exists>y. fold f [1..<m + 1] (Inr x0) = Inr y \<and> d y = d x0 + (\<Sum>k<m. t k :: int)"
  using \<open>m \<le> n\<close>
proof (induction m)
  case 0
  then show ?case by simp
next
  case (Suc m)
  then obtain y where y: "fold f [1..<m + 1] (Inr x0) = Inr y" "d y = d x0 + (\<Sum>k<m. t k)"
    by auto
  from step [of m y] Suc.prems obtain y' where "f (Suc m) (Inr y) = Inr y'" "d y' = d y + t m"
    by auto
  with y show ?case by simp
qed

lemma evaluate_value:
  assumes c: "scheme_contract sch pk sk"
    and lc: "length (coefficients srv) = server_n srv + 1"
    and le: "length eps = server_n srv"
    and pw: "\<forall>k<length eps. decrypt sch sk (eps ! k) = c ^ (k + 1)"
  shows "\<exists>x. evaluate_polynomial_homomorphic sch nonce srv pk eps = Inr x
           \<and> decrypt sch sk x = poly_value (coefficients srv) c"
proof -
  let ?cs = "coefficients srv" and ?n = "server_n srv"
  have ne: "?cs \<noteq> []" using lc by auto
  have last: "last ?cs = ?cs ! ?n" using lc ne by (simp add: last_conv_nth)
  have "\<exists>y. fold (add_term sch srv eps) [1..<?n + 1] (Inr (encrypt sch pk nonce (last ?cs))) = Inr y
          \<and> decrypt sch sk y = decrypt sch sk (encrypt sch pk nonce (last ?cs))
               + (\<Sum>k<?n. ?cs ! (?n - Suc k) * c ^ Suc k)"
  proof (rule term_loop [where n = ?n])
    fix k x assume "k < ?n"
    then show "\<exists>y. add_term sch srv eps (Suc k) (Inr x) = Inr y
        \<and> decrypt sch sk y = decrypt sch sk x + ?cs ! (?n - Suc k) * c ^ Suc k"
      using add_term_step [OF c lc le _ \<open>k < ?n\<close>, of c x] pw le by simp
  qed simp
  then show ?thesis
    using le ne last
    by (simp add: evaluate_polynomial_homomorphic_def py_last_def
        contract_encrypt [OF c] poly_value_low_first [OF lc])
qed

lemma homomorphic_sum_spec_value:
  assumes c: "scheme_contract sch pk sk"
    and lc: "length (coefficients srv) = server_n srv + 1"
    and le: "length eps = server_n srv"
    and pw: "\<forall>k<length eps. decrypt sch sk (eps ! k) = c ^ (k + 1)"
  shows "\<exists>x. homomorphic_sum_spec sch nonce srv pk eps = Inr x
           \<and> decrypt sch sk x = poly_value (coefficients srv) c"
proof -
  let ?cs = "coefficients srv" and ?n = "server_n srv"
  have ne: "?cs \<noteq> []" using lc by auto
  have last: "last ?cs = ?cs ! ?n" using lc ne by (simp add: last_conv_nth)
  have "\<exists>y. fold (add_term_unskipped sch srv eps) [1..<?n + 1]
              (Inr (encrypt sch pk nonce (last ?cs))) = Inr y
          \<and> decrypt sch sk y = decrypt sch sk (encrypt sch pk nonce (last ?cs))
               + (\<Sum>k<?n. ?cs ! (?n - Suc k) * c ^ Suc k)"
  proof (rule term_loop [where n = ?n])
    fix k x assume "k < ?n"
    then show "\<exists>y. add_term_unskipped sch srv eps (Suc k) (Inr x) = Inr y
        \<and> decrypt sch sk y = decrypt sch sk x + ?cs ! (?n - Suc k) * c ^ Suc k"
      using add_term_unskipped_step [OF c lc le _ \<open>k < ?n\<close>, of c x] pw le by simp
  qed simp
  then show ?thesis
    using le ne last
    by (simp add: homomorphic_sum_spec_def py_last_def
        contract_encrypt [OF c] poly_value_low_first [OF lc])
qed

lemma Server_init_wf:
  "length (coefficients (Server_init L ds)) = server_n (Server_init L ds) + 1"
  by (simp add: Server_init_def length_compute)

text \<open>
  C4 (homomorphic evaluation). For every key pair under which the scheme keeps its
  contract, every constructed Server and every list of \<open>n\<close> ciphertexts whose \<open>k\<close>-th
  entry decrypts to \<open>c ^ k\<close>, \<^verbatim>\<open>evaluate_polynomial_homomorphic\<close> returns a ciphertext
  that decrypts to the value at \<open>c\<close> of the Server's polynomial in plain integer
  arithmetic. The sum with no term skipped returns too, and decrypts to the same value:
  skipping the terms with coefficient zero does not change the decrypted result.
\<close>

theorem C4_homomorphic_evaluation:
  assumes "scheme_contract sch pk sk"
    and "length eps = server_n (Server_init L ds)"
    and "\<forall>k<length eps. decrypt sch sk (eps ! k) = c ^ (k + 1)"
  shows "\<exists>x y. evaluate_polynomial_homomorphic sch nonce (Server_init L ds) pk eps = Inr x
           \<and> decrypt sch sk x = poly_value (coefficients (Server_init L ds)) c
           \<and> homomorphic_sum_spec sch nonce (Server_init L ds) pk eps = Inr y
           \<and> decrypt sch sk y = decrypt sch sk x"
  using evaluate_value [OF assms(1) Server_init_wf assms(2,3), of nonce]
    homomorphic_sum_spec_value [OF assms(1) Server_init_wf assms(2,3), of nonce]
  by fastforce

theorem C4_homomorphic_evaluation_witness:
  "scheme_contract tagged_scheme () ()
   \<and> length [(2::int, 5::nat), (4, 6)] = server_n (Server_init remdups [1, - 1])
   \<and> decrypt tagged_scheme () ([(2, 5), (4, 6)] ! 0) = 2 ^ 1
   \<and> decrypt tagged_scheme () ([(2, 5), (4, 6)] ! 1) = 2 ^ 2
   \<and> (\<exists>x y. evaluate_polynomial_homomorphic tagged_scheme 3 (Server_init remdups [1, - 1]) ()
               [(2, 5), (4, 6)] = Inr x
           \<and> decrypt tagged_scheme () x
               = poly_value (coefficients (Server_init remdups [1, - 1])) 2
           \<and> homomorphic_sum_spec tagged_scheme 3 (Server_init remdups [1, - 1]) ()
               [(2, 5), (4, 6)] = Inr y
           \<and> decrypt tagged_scheme () y = decrypt tagged_scheme () x)"
proof -
  have h1: "scheme_contract tagged_scheme () ()" by (rule tagged_contract)
  have h2: "length [(2::int, 5::nat), (4, 6)] = server_n (Server_init remdups [1, - 1])"
    by (simp add: Server_init_def)
  have h3: "\<forall>k<length [(2::int, 5::nat), (4, 6)].
         decrypt tagged_scheme () ([(2, 5), (4, 6)] ! k) = 2 ^ (k + 1)"
    by (simp add: tagged_scheme_def less_Suc_eq)
  have p1: "decrypt tagged_scheme () ([(2, 5), (4, 6)] ! 0) = 2 ^ 1"
    and p2: "decrypt tagged_scheme () ([(2, 5), (4, 6)] ! 1) = 2 ^ 2"
    by (simp_all add: tagged_scheme_def)
  from h1 h2 p1 p2 C4_homomorphic_evaluation [OF h1 h2 h3, of 3] show ?thesis by blast
qed

section \<open>The protocol run\<close>

lemma encrypt_step_pair:
  "encrypt_step sch pk nonce c k (p, es) = (p * c, es @ [encrypt sch pk (nonce k) (p * c)])"
  by (simp add: encrypt_step_def Let_def)

lemma encrypt_loop:
  "fold (encrypt_step sch pk nonce c) [1..int m] (1, [])
     = (c ^ m, map (\<lambda>k. encrypt sch pk (nonce (int k + 1)) (c ^ (k + 1))) [0..<m])"
proof (induction m)
  case 0
  then show ?case by simp
next
  case (Suc m)
  have "[1..int (Suc m)] = [1..int m] @ [int m + 1]"
    using upto_rec2 [of 1 "1 + int m"] by (simp add: add.commute)
  then show ?case using Suc.IH by (simp add: encrypt_step_pair mult.commute)
qed

lemma encrypt_query_powers:
  assumes "public_key client = Some pk"
  shows "encrypt_query sch nonce client c (int n)
     = Inr (map (\<lambda>k. encrypt sch pk (nonce (int k + 1)) (c ^ (k + 1))) [0..<n])"
  using assms by (simp add: encrypt_query_def encrypt_loop)

lemma run_protocol_result:
  assumes lst: "listing_contract L ds"
    and con: "scheme_contract sch (fst (generate_paillier_keypair sch (key_seed rnd) kl))
                (snd (generate_paillier_keypair sch (key_seed rnd) kl))"
  shows "\<exists>r. 1 \<le> r \<and> r \<le> 1000 \<and>
     run_protocol sch L rnd q ds kl
       = Inr (q \<in> set ds,
              \<lparr>query = q,
               dataset_size = length ds,
               polynomial_degree = card (set ds),
               info_coefficients = compute_polynomial_coefficients (L ds),
               decrypted_result = r * (\<Prod>s\<leftarrow>L ds. q - s),
               is_member = (q \<in> set ds),
               actual_membership = (q \<in> set ds)\<rparr>)"
proof -
  obtain pk sk where kp: "generate_paillier_keypair sch (key_seed rnd) kl = (pk, sk)"
    by (cases "generate_paillier_keypair sch (key_seed rnd) kl")
  have c: "scheme_contract sch pk sk" using con kp by simp
  define cl :: "('a, 'b) Client" where "cl = \<lparr>public_key = Some pk, private_key = Some sk\<rparr>"
  define srv where "srv = Server_init L ds"
  define eps where
    "eps = map (\<lambda>k. encrypt sch pk (power_nonce rnd (int k + 1)) (q ^ (k + 1))) [0..<server_n srv]"
  have gk: "generate_keys sch (key_seed rnd) Client_init kl = (cl, pk)"
    by (simp add: generate_keys_def kp Client_init_def cl_def)
  have eq: "encrypt_query sch (power_nonce rnd) cl q (int (server_n srv)) = Inr eps"
    unfolding eps_def by (rule encrypt_query_powers) (simp add: cl_def)
  have le: "length eps = server_n srv" by (simp add: eps_def)
  have pw: "\<forall>k<length eps. decrypt sch sk (eps ! k) = q ^ (k + 1)"
    by (simp add: eps_def contract_encrypt [OF c])
  have wf: "length (coefficients srv) = server_n srv + 1"
    unfolding srv_def by (rule Server_init_wf)
  from evaluate_value [OF c wf le pw, of "constant_nonce rnd"]
  obtain x where x: "evaluate_polynomial_homomorphic sch (constant_nonce rnd) srv pk eps = Inr x"
    "decrypt sch sk x = poly_value (coefficients srv) q" by blast
  from blind_and_return_value [OF c, of 1000 "blinding_draw rnd" x]
  obtain r y where y: "blind_and_return sch (blinding_draw rnd) x 1000 = Inr y"
    "1 \<le> r" "r \<le> 1000" "decrypt sch sk y = r * decrypt sch sk x" by auto
  have dr: "decrypt_result sch cl y = Inr (r * (\<Prod>s\<leftarrow>L ds. q - s))"
    by (simp add: decrypt_result_def cl_def y(4) x(2) srv_def Server_init_def poly_value_compute)
  have mem: "check_membership (r * (\<Prod>s\<leftarrow>L ds. q - s)) \<longleftrightarrow> q \<in> set ds"
    using y(2) lst by (simp add: check_membership_def root_product_zero_iff listing_contract_def)
  have n: "server_n srv = card (set ds)"
    unfolding srv_def using listing_card [OF lst] by (simp add: Server_init_def)
  have cs: "coefficients srv = compute_polynomial_coefficients (L ds)"
    by (simp add: srv_def Server_init_def)
  have "run_protocol sch L rnd q ds kl
       = Inr (q \<in> set ds,
              \<lparr>query = q,
               dataset_size = length ds,
               polynomial_degree = card (set ds),
               info_coefficients = compute_polynomial_coefficients (L ds),
               decrypted_result = r * (\<Prod>s\<leftarrow>L ds. q - s),
               is_member = (q \<in> set ds),
               actual_membership = (q \<in> set ds)\<rparr>)"
    unfolding run_protocol_def Let_def srv_def [symmetric] blind_and_return_default_def
    by (simp add: gk eq x(1) y(1) dr mem cs n [symmetric])
  with y(2,3) show ?thesis by blast
qed

lemma tagged_keypair_contract:
  "scheme_contract tagged_scheme (fst (generate_paillier_keypair tagged_scheme seed kl))
     (snd (generate_paillier_keypair tagged_scheme seed kl))"
  by (simp add: scheme_contract_def tagged_scheme_def)

text \<open>
  C1 (end-to-end verdict). For every integer query and every dataset, and for every
  outcome of the random choices, \<^verbatim>\<open>run_protocol\<close> returns, and its verdict is the
  ground truth \<^verbatim>\<open>query in dataset\<close>, provided the scheme keeps its contract for the
  generated key pair. The record reports the same verdict; the decrypted result is 0 on
  a member and non-zero otherwise; on the empty dataset the verdict is false.
\<close>

theorem C1_run_protocol_verdict:
  assumes "listing_contract L ds"
    and "scheme_contract sch (fst (generate_paillier_keypair sch (key_seed rnd) kl))
           (snd (generate_paillier_keypair sch (key_seed rnd) kl))"
  shows "\<exists>info. run_protocol sch L rnd q ds kl = Inr (q \<in> set ds, info)
           \<and> is_member info = (q \<in> set ds)
           \<and> actual_membership info = (q \<in> set ds)
           \<and> (q \<in> set ds \<longrightarrow> decrypted_result info = 0)
           \<and> (q \<notin> set ds \<longrightarrow> decrypted_result info \<noteq> 0)
           \<and> (ds = [] \<longrightarrow> run_protocol sch L rnd q ds kl = Inr (False, info))"
proof -
  from run_protocol_result [OF assms, of q]
  obtain r where r: "1 \<le> r" and
    run: "run_protocol sch L rnd q ds kl
       = Inr (q \<in> set ds,
              \<lparr>query = q,
               dataset_size = length ds,
               polynomial_degree = card (set ds),
               info_coefficients = compute_polynomial_coefficients (L ds),
               decrypted_result = r * (\<Prod>s\<leftarrow>L ds. q - s),
               is_member = (q \<in> set ds),
               actual_membership = (q \<in> set ds)\<rparr>)" by blast
  have "r * (\<Prod>s\<leftarrow>L ds. q - s) = 0 \<longleftrightarrow> q \<in> set ds"
    using r assms(1) by (simp add: root_product_zero_iff listing_contract_def)
  then show ?thesis unfolding run by auto
qed

theorem C1_run_protocol_verdict_witness:
  "listing_contract remdups [1, 3, 5, 7, 9]
   \<and> scheme_contract tagged_scheme
       (fst (generate_paillier_keypair tagged_scheme (key_seed demo_draws) 1024))
       (snd (generate_paillier_keypair tagged_scheme (key_seed demo_draws) 1024))
   \<and> (\<exists>info. run_protocol tagged_scheme remdups demo_draws 5 [1, 3, 5, 7, 9] 1024
                 = Inr (True, info) \<and> decrypted_result info = 0)
   \<and> (\<exists>info. run_protocol tagged_scheme remdups demo_draws 4 [1, 3, 5, 7, 9] 1024
                 = Inr (False, info) \<and> decrypted_result info \<noteq> 0)
   \<and> listing_contract remdups []
   \<and> (\<exists>info. run_protocol tagged_scheme remdups demo_draws 4 [] 1024 = Inr (False, info))"
proof -
  have h0: "listing_contract remdups []" by (rule listing_remdups)
  have h1: "listing_contract remdups [1, 3, 5, 7, 9]" by (rule listing_remdups)
  have h2: "scheme_contract tagged_scheme
       (fst (generate_paillier_keypair tagged_scheme (key_seed demo_draws) 1024))
       (snd (generate_paillier_keypair tagged_scheme (key_seed demo_draws) 1024))"
    by (rule tagged_keypair_contract)
  have "\<exists>info. run_protocol tagged_scheme remdups demo_draws 5 [1, 3, 5, 7, 9] 1024
                 = Inr (True, info) \<and> decrypted_result info = 0"
    using C1_run_protocol_verdict [OF h1 h2, of 5] by auto
  moreover have "\<exists>info. run_protocol tagged_scheme remdups demo_draws 4 [1, 3, 5, 7, 9] 1024
                 = Inr (False, info) \<and> decrypted_result info \<noteq> 0"
    using C1_run_protocol_verdict [OF h1 h2, of 4] by auto
  moreover have "\<exists>info. run_protocol tagged_scheme remdups demo_draws 4 [] 1024
                 = Inr (False, info)"
    using C1_run_protocol_verdict [OF h0 h2, of 4] by auto
  ultimately show ?thesis using h0 h1 h2 by blast
qed

text \<open>
  C10 (dataset size and degree in the diagnostics). The record returned by
  \<^verbatim>\<open>run_protocol\<close> reports as \<^verbatim>\<open>dataset_size\<close> the length of the input list and as
  \<^verbatim>\<open>polynomial_degree\<close> the number of its distinct elements. The two are equal exactly
  when the input has no duplicates, the degree is the smaller one otherwise, and the
  verdict is membership in the Server's deduplicated dataset.
\<close>

theorem C10_dataset_size_and_degree:
  assumes "listing_contract L ds"
    and "scheme_contract sch (fst (generate_paillier_keypair sch (key_seed rnd) kl))
           (snd (generate_paillier_keypair sch (key_seed rnd) kl))"
  shows "\<exists>verdict info. run_protocol sch L rnd q ds kl = Inr (verdict, info)
           \<and> dataset_size info = length ds
           \<and> polynomial_degree info = card (set ds)
           \<and> (dataset_size info = polynomial_degree info \<longleftrightarrow> distinct ds)
           \<and> (\<not> distinct ds \<longrightarrow> polynomial_degree info < dataset_size info)
           \<and> verdict = (q \<in> set (dataset (Server_init L ds)))"
proof -
  from run_protocol_result [OF assms, of q]
  obtain r where
    run: "run_protocol sch L rnd q ds kl
       = Inr (q \<in> set ds,
              \<lparr>query = q,
               dataset_size = length ds,
               polynomial_degree = card (set ds),
               info_coefficients = compute_polynomial_coefficients (L ds),
               decrypted_result = r * (\<Prod>s\<leftarrow>L ds. q - s),
               is_member = (q \<in> set ds),
               actual_membership = (q \<in> set ds)\<rparr>)" by blast
  have "length ds = card (set ds) \<longleftrightarrow> distinct ds"
    by (metis card_distinct distinct_card)
  moreover have "card (set ds) \<le> length ds" by (rule card_length)
  moreover have "set (dataset (Server_init L ds)) = set ds"
    using assms(1) by (simp add: Server_init_def listing_contract_def)
  ultimately show ?thesis unfolding run by auto
qed

theorem C10_dataset_size_and_degree_witness:
  "listing_contract remdups [2, 5, 2]
   \<and> scheme_contract tagged_scheme
       (fst (generate_paillier_keypair tagged_scheme (key_seed demo_draws) 1024))
       (snd (generate_paillier_keypair tagged_scheme (key_seed demo_draws) 1024))
   \<and> (\<exists>info. run_protocol tagged_scheme remdups demo_draws 2 [2, 5, 2] 1024
                 = Inr (True, info)
               \<and> dataset_size info = 3 \<and> polynomial_degree info = 2)"
proof -
  have h1: "listing_contract remdups [2, 5, 2]" by (rule listing_remdups)
  have h2: "scheme_contract tagged_scheme
       (fst (generate_paillier_keypair tagged_scheme (key_seed demo_draws) 1024))
       (snd (generate_paillier_keypair tagged_scheme (key_seed demo_draws) 1024))"
    by (rule tagged_keypair_contract)
  have "card (set [2, 5, 2 :: int]) = 2" by (simp add: card_insert_if)
  then have "\<exists>info. run_protocol tagged_scheme remdups demo_draws 2 [2, 5, 2] 1024
                 = Inr (True, info)
               \<and> dataset_size info = 3 \<and> polynomial_degree info = 2"
    using C10_dataset_size_and_degree [OF h1 h2, of 2]
    by (auto simp: Server_init_def)
  then show ?thesis using h1 h2 by blast
qed

end
